theory Spec2Isabelle
  imports Main
begin

section \<open>The vision mask of the Llama sample encoder\<close>

text \<open>
  This theory embeds \<^verbatim>\<open>Llama3SampleEncoder.create_vision_mask_tensor\<close> of
  \<^verbatim>\<open>nemo/collections/vlm/llama/data/sample_encoder.py\<close>. Token ids, positions and range
  bounds are Python integers (\<open>int\<close>); the one-dimensional token tensor is an \<open>int list\<close>; the
  returned \<open>k \<times> 2\<close> tensor is a list of pairs \<open>(start, end)\<close>. Every operation of the source
  that can raise is modelled with a result of type \<open>error + 'a\<close>, \<open>Inl\<close> being the raise.

  The token tensor has dtype \<^verbatim>\<open>torch.long\<close>: its elements are 64-bit signed integers, and
  the comparison \<^verbatim>\<open>tokens == vision_token_id\<close> first converts the Python integer
  \<^verbatim>\<open>vision_token_id\<close> to a 64-bit scalar. The model has two layers.
  \<open>create_vision_mask_tensor\<close> is the function from that scalar on: its second argument is
  the 64-bit value the tokens are compared with. \<open>int64_scalar\<close> is the conversion, and
  \<open>create_vision_mask_tensor_call\<close> is the function on the Python integer, conversion
  included. For an id in the 64-bit signed range the two agree.
\<close>

subsection \<open>Errors and tensors\<close>

datatype error = IndexError | TypeError | RuntimeError | OverflowError

definition bind_e :: "error + 'a \<Rightarrow> ('a \<Rightarrow> error + 'b) \<Rightarrow> error + 'b" where
  "bind_e m f = (case m of Inl e \<Rightarrow> Inl e | Inr x \<Rightarrow> f x)"

text \<open>
  \<^verbatim>\<open>(tokens == vision_token_id).nonzero(as_tuple=False)\<close> is a tensor of shape \<open>(k, 1)\<close>
  holding the indices of the matching tokens in increasing order; in \<open>nonzero\<close> the id is
  the 64-bit scalar of the comparison. \<^verbatim>\<open>squeeze()\<close> removes
  every dimension of size one: for \<open>k = 1\<close> the result is a zero-dimensional tensor, for any
  other \<open>k\<close> a one-dimensional tensor of length \<open>k\<close>. The two shapes behave differently under
  \<^verbatim>\<open>len\<close>, indexing and \<^verbatim>\<open>item\<close>, so both are kept.
\<close>

datatype tensor = Scalar int | Vector "int list"

definition nonzero :: "int list \<Rightarrow> int \<Rightarrow> int list" where
  "nonzero tokens vision_token_id =
     map int (filter (\<lambda>i. tokens ! i = vision_token_id) [0..<length tokens])"

definition squeeze :: "int list \<Rightarrow> tensor" where
  "squeeze idx = (case idx of [x] \<Rightarrow> Scalar x | _ \<Rightarrow> Vector idx)"

fun numel :: "tensor \<Rightarrow> nat" where
  "numel (Scalar x) = 1"
| "numel (Vector xs) = length xs"

text \<open>\<^verbatim>\<open>item()\<close> needs a tensor of exactly one element.\<close>

fun item :: "tensor \<Rightarrow> error + int" where
  "item (Scalar x) = Inr x"
| "item (Vector xs) = (case xs of [x] \<Rightarrow> Inr x | _ \<Rightarrow> Inl RuntimeError)"

text \<open>\<^verbatim>\<open>len\<close> of a zero-dimensional tensor raises a TypeError.\<close>

fun len_t :: "tensor \<Rightarrow> error + nat" where
  "len_t (Scalar x) = Inl TypeError"
| "len_t (Vector xs) = Inr (length xs)"

text \<open>
  \<^verbatim>\<open>t[i].item()\<close>: a zero-dimensional tensor cannot be indexed; a negative index counts
  from the end; an index out of range raises.
\<close>

fun at :: "tensor \<Rightarrow> int \<Rightarrow> error + int" where
  "at (Scalar x) i = Inl IndexError"
| "at (Vector xs) i =
     (if 0 \<le> i \<and> i < int (length xs) then Inr (xs ! nat i)
      else if i < 0 \<and> - int (length xs) \<le> i then Inr (xs ! nat (int (length xs) + i))
      else Inl IndexError)"

text \<open>\<^verbatim>\<open>range(n)\<close> is empty for \<open>n \<le> 0\<close>.\<close>

definition range_py :: "int \<Rightarrow> int list" where
  "range_py n = map int [0..<nat n]"

subsection \<open>The pairwise masks\<close>

text \<open>
  The loop \<^verbatim>\<open>for i in range(len(vision_token_locations) - 1)\<close> appends
  \<^verbatim>\<open>[vision_token_locations[i].item(), vision_token_locations[i + 1].item()]\<close>.
\<close>

fun pairwise_masks :: "tensor \<Rightarrow> int list \<Rightarrow> error + (int \<times> int) list" where
  "pairwise_masks vision_token_locations [] = Inr []"
| "pairwise_masks vision_token_locations (i # is) =
     bind_e (at vision_token_locations i) (\<lambda>a.
     bind_e (at vision_token_locations (i + 1)) (\<lambda>b.
     bind_e (pairwise_masks vision_token_locations is) (\<lambda>rest.
     Inr ((a, b) # rest))))"

subsection \<open>Consecutive vision tokens\<close>

text \<open>
  The loop \<^verbatim>\<open>for vision_mask in reversed(vision_masks)\<close> visits the masks from the last
  to the first, carrying \<^verbatim>\<open>last_mask_end\<close>. A mask with \<^verbatim>\<open>vision_mask[0] == vision_mask[1] - 1\<close>
  gets \<^verbatim>\<open>last_mask_end\<close> as its end; then \<^verbatim>\<open>last_mask_end\<close> becomes the end of the
  mask just visited. \<open>merge_loop\<close> takes the masks in visiting order and returns them, updated,
  in that order. The masks are separate two-element lists, so updating one in place changes
  no other, and the list keeps its length and order.
\<close>

fun merge_loop :: "int \<Rightarrow> (int \<times> int) list \<Rightarrow> (int \<times> int) list" where
  "merge_loop last_mask_end [] = []"
| "merge_loop last_mask_end (vision_mask # rest) =
     (let vision_mask' =
            (if fst vision_mask = snd vision_mask - 1
             then (fst vision_mask, last_mask_end) else vision_mask)
      in vision_mask' # merge_loop (snd vision_mask') rest)"

text \<open>\<^verbatim>\<open>vision_masks[-1][1]\<close> raises an IndexError on an empty list.\<close>

definition handle_consecutive :: "(int \<times> int) list \<Rightarrow> error + (int \<times> int) list" where
  "handle_consecutive vision_masks =
     (case vision_masks of
        [] \<Rightarrow> Inl IndexError
      | _ \<Rightarrow> Inr (rev (merge_loop (snd (last vision_masks)) (rev vision_masks))))"

subsection \<open>The function\<close>

definition create_vision_mask_tensor :: "int list \<Rightarrow> int \<Rightarrow> error + (int \<times> int) list" where
  "create_vision_mask_tensor tokens vision_token_id =
     (let vision_token_locations = squeeze (nonzero tokens vision_token_id) in
      if numel vision_token_locations = 0 then Inr []
      else
        bind_e
          (if numel vision_token_locations = 1
           then bind_e (item vision_token_locations) (\<lambda>p. Inr [(p, int (length tokens))])
           else bind_e (len_t vision_token_locations) (\<lambda>k.
                bind_e (pairwise_masks vision_token_locations (range_py (int k - 1))) (\<lambda>ms.
                bind_e (at vision_token_locations (- 1)) (\<lambda>l.
                Inr (ms @ [(l, int (length tokens))])))))
          handle_consecutive)"

subsection \<open>The vision token id as a Python integer\<close>

text \<open>
  \<^verbatim>\<open>tokens == vision_token_id\<close> converts the Python integer to a 64-bit scalar before it
  compares. An integer below \<open>- 2\<^sup>6\<^sup>3\<close> or from \<open>2\<^sup>6\<^sup>4\<close> on raises an OverflowError; an
  integer from \<open>2\<^sup>6\<^sup>3\<close> up to \<open>2\<^sup>6\<^sup>4 - 1\<close> wraps around to the signed value
  \<open>vision_token_id - 2\<^sup>6\<^sup>4\<close>; any other integer is taken as it is. The id is used nowhere
  else in the function.
\<close>

definition int64_scalar :: "int \<Rightarrow> error + int" where
  "int64_scalar vision_token_id =
     (if vision_token_id < - (2 ^ 63) \<or> 2 ^ 64 \<le> vision_token_id then Inl OverflowError
      else if 2 ^ 63 \<le> vision_token_id then Inr (vision_token_id - 2 ^ 64)
      else Inr vision_token_id)"

definition create_vision_mask_tensor_call :: "int list \<Rightarrow> int \<Rightarrow> error + (int \<times> int) list" where
  "create_vision_mask_tensor_call tokens vision_token_id =
     bind_e (int64_scalar vision_token_id) (create_vision_mask_tensor tokens)"

subsection \<open>A closed form of the result\<close>

text \<open>
  Two list functions used to reason about the result: \<open>raw_masks\<close> lists the masks before
  the loop over consecutive vision tokens (each location paired with the next one, the last
  with the sequence length), and \<open>merged\<close> is that loop read from the front of the list.
  Both are shown below to agree with the functions above.
\<close>

fun raw_masks :: "int list \<Rightarrow> int \<Rightarrow> (int \<times> int) list" where
  "raw_masks [] n = []"
| "raw_masks [p] n = [(p, n)]"
| "raw_masks (p # q # ps) n = (p, q) # raw_masks (q # ps) n"

fun merged :: "(int \<times> int) list \<Rightarrow> (int \<times> int) list" where
  "merged [] = []"
| "merged [m] = [m]"
| "merged (m # m' # ms) =
     (let r = merged (m' # ms)
      in (if fst m = snd m - 1 then (fst m, snd (hd r)) else m) # r)"

definition masks_of :: "int list \<Rightarrow> int \<Rightarrow> (int \<times> int) list" where
  "masks_of ps n = merged (raw_masks ps n)"

subsection \<open>The merge step in the words of the specification\<close>

text \<open>
  The specification describes the step as follows: track \<open>last_mask_end\<close>, initialised to
  the final range's end; iterate the ranges in reverse; whenever a range is a single-token
  span (\<open>end - start = 1\<close>), overwrite its end with \<open>last_mask_end\<close>; after each range set
  \<open>last_mask_end\<close> to that range's end. The state of the scan is the list of ranges already
  visited together with \<open>last_mask_end\<close>.
\<close>

definition spec_step :: "int \<times> int \<Rightarrow> (int \<times> int) list \<times> int \<Rightarrow> (int \<times> int) list \<times> int" where
  "spec_step r st =
     (let e = (if snd r - fst r = 1 then snd st else snd r)
      in ((fst r, e) # fst st, e))"

definition spec_merge :: "(int \<times> int) list \<Rightarrow> (int \<times> int) list" where
  "spec_merge ranges = fst (foldr spec_step ranges ([], snd (last ranges)))"

subsection \<open>Overlap and coverage of half-open ranges\<close>

text \<open>
  Two half-open ranges overlap when they share an index; \<open>covered\<close> is the set of indices
  that lie in some range of the list.
\<close>

definition overlap :: "int \<times> int \<Rightarrow> int \<times> int \<Rightarrow> bool" where
  "overlap a b = (max (fst a) (fst b) < min (snd a) (snd b))"

fun non_overlapping :: "(int \<times> int) list \<Rightarrow> bool" where
  "non_overlapping [] = True"
| "non_overlapping (r # rs) = (list_all (\<lambda>q. \<not> overlap r q) rs \<and> non_overlapping rs)"

definition covered :: "(int \<times> int) list \<Rightarrow> int set" where
  "covered rs = (\<Union>r \<in> set rs. {fst r..<snd r})"

section \<open>Agreement of the closed form with the function\<close>

lemma merge_loop_Nil_iff: "merge_loop l xs = [] \<longleftrightarrow> xs = []"
  by (cases xs) (auto simp: Let_def)

lemma merge_loop_append:
  "merge_loop l (xs @ ys) =
     merge_loop l xs @ merge_loop (if xs = [] then l else snd (last (merge_loop l xs))) ys"
  by (induction xs arbitrary: l) (auto simp: Let_def merge_loop_Nil_iff)

lemma merged_Nil_iff: "merged xs = [] \<longleftrightarrow> xs = []"
  by (induction xs rule: merged.induct) (auto simp: Let_def)

lemma rev_merge_loop:
  "xs \<noteq> [] \<Longrightarrow> rev (merge_loop (snd (last xs)) (rev xs)) = merged xs"
proof (induction xs rule: merged.induct)
  case 1
  then show ?case by simp
next
  case (2 m)
  then show ?case by (cases m) simp
next
  case (3 m m' ms)
  let ?l = "snd (last (m' # ms))"
  let ?r = "merge_loop ?l (rev (m' # ms))"
  have ih: "rev ?r = merged (m' # ms)" using 3 by simp
  have ne: "?r \<noteq> []" by (simp add: merge_loop_Nil_iff)
  have "last ?r = hd (rev ?r)" using ne by (simp add: hd_rev)
  then have lst: "last ?r = hd (merged (m' # ms))" using ih by simp
  have "merge_loop ?l (rev (m # m' # ms)) = ?r @ merge_loop (snd (last ?r)) [m]"
    using merge_loop_append [of ?l "rev (m' # ms)" "[m]"] by simp
  then have "rev (merge_loop ?l (rev (m # m' # ms))) = rev (merge_loop (snd (last ?r)) [m]) @ rev ?r"
    by simp
  then show ?case using ih lst by (simp add: Let_def)
qed

lemma handle_consecutive_merged:
  "xs \<noteq> [] \<Longrightarrow> handle_consecutive xs = Inr (merged xs)"
proof -
  assume ne: "xs \<noteq> []"
  then have "handle_consecutive xs = Inr (rev (merge_loop (snd (last xs)) (rev xs)))"
    by (cases xs) (simp_all add: handle_consecutive_def)
  then show ?thesis using rev_merge_loop [OF ne] by simp
qed

lemma at_Vector_last: "xs \<noteq> [] \<Longrightarrow> at (Vector xs) (- 1) = Inr (last xs)"
  by (cases xs rule: rev_cases) (auto simp: Let_def nth_append nat_add_distrib)

lemma pairwise_masks_Vector:
  "\<forall>i \<in> set is. Suc i < length xs \<Longrightarrow>
   pairwise_masks (Vector xs) (map int is) = Inr (map (\<lambda>i. (xs ! i, xs ! Suc i)) is)"
proof (induction "is")
  case Nil
  then show ?case by simp
next
  case (Cons i "is")
  have a: "at (Vector xs) (int i) = Inr (xs ! i)" using Cons.prems by (simp add: Let_def)
  have b: "at (Vector xs) (int i + 1) = Inr (xs ! Suc i)"
    using Cons.prems by (simp add: Let_def nat_add_distrib)
  show ?case using Cons a b by (simp add: bind_e_def del: at.simps)
qed

lemma raw_masks_index:
  "ps \<noteq> [] \<Longrightarrow>
   map (\<lambda>i. (ps ! i, ps ! Suc i)) [0..<length ps - 1] @ [(last ps, n)] = raw_masks ps n"
proof (induction ps n rule: raw_masks.induct)
  case (1 n)
  then show ?case by simp
next
  case (2 p n)
  then show ?case by simp
next
  case (3 p q ps n)
  have "[0..<length (p # q # ps) - 1] = 0 # map Suc [0..<length (q # ps) - 1]"
    by (simp add: upt_conv_Cons map_Suc_upt del: upt_Suc)
  then show ?case using 3 by (simp add: comp_def del: upt_Suc)
qed

lemma create_vision_mask_tensor_eq:
  "create_vision_mask_tensor tokens v =
     Inr (merged (raw_masks (nonzero tokens v) (int (length tokens))))"
proof -
  let ?ps = "nonzero tokens v"
  let ?n = "int (length tokens)"
  have "?ps = [] \<or> (\<exists>p. ?ps = [p]) \<or> 2 \<le> length ?ps"
    by (cases "(?ps, ?n)" rule: raw_masks.cases) auto
  then consider "?ps = []" | p where "?ps = [p]" | "2 \<le> length ?ps"
    by blast
  then show ?thesis
  proof cases
    case 1
    then show ?thesis by (simp add: create_vision_mask_tensor_def squeeze_def)
  next
    case 2
    then show ?thesis
      by (simp add: create_vision_mask_tensor_def squeeze_def bind_e_def handle_consecutive_def)
  next
    case 3
    then have sq: "squeeze ?ps = Vector ?ps"
      by (auto simp: squeeze_def split: list.splits)
    have ne: "?ps \<noteq> []" using 3 by auto
    have rg: "range_py (int (length ?ps) - 1) = map int [0..<length ?ps - 1]"
      using 3 by (simp add: range_py_def nat_diff_distrib')
    have pm: "pairwise_masks (Vector ?ps) (map int [0..<length ?ps - 1])
        = Inr (map (\<lambda>i. (?ps ! i, ?ps ! Suc i)) [0..<length ?ps - 1])"
      by (rule pairwise_masks_Vector) auto
    have rawne: "raw_masks ?ps ?n \<noteq> []" using 3 by (cases "(?ps, ?n)" rule: raw_masks.cases) auto
    have "create_vision_mask_tensor tokens v = handle_consecutive (raw_masks ?ps ?n)"
      unfolding create_vision_mask_tensor_def Let_def sq
      using 3 ne rg pm at_Vector_last [OF ne] raw_masks_index [OF ne, of ?n]
      by (simp add: bind_e_def del: at.simps)
    then show ?thesis using rawne by (simp add: handle_consecutive_merged)
  qed
qed

section \<open>The locations of the vision tokens and the shape of the masks\<close>

lemma overlap_iff: "overlap a b \<longleftrightarrow> {fst a..<snd a} \<inter> {fst b..<snd b} \<noteq> {}"
  unfolding overlap_def by (auto simp: max_def min_def split: if_splits)

lemma non_overlapping_pairwise:
  "non_overlapping rs \<longleftrightarrow>
     sorted_wrt (\<lambda>a b. {fst a..<snd a} \<inter> {fst b..<snd b} = {}) rs"
  by (induction rs) (auto simp: list_all_iff overlap_iff)

lemma nonzero_sorted: "sorted_wrt (<) (nonzero tokens v)"
  by (simp add: nonzero_def sorted_wrt_map sorted_wrt_filter)

lemma nonzero_set: "set (nonzero tokens v) = int ` {i. i < length tokens \<and> tokens ! i = v}"
  by (auto simp: nonzero_def)

lemma nonzero_bounds: "p \<in> set (nonzero tokens v) \<Longrightarrow> 0 \<le> p \<and> p < int (length tokens)"
  by (auto simp: nonzero_set)

lemma nonzero_present: "v \<in> set tokens \<Longrightarrow> nonzero tokens v \<noteq> []"
proof -
  assume "v \<in> set tokens"
  then obtain i where "i < length tokens" "tokens ! i = v" by (auto simp: in_set_conv_nth)
  then have "int i \<in> set (nonzero tokens v)" by (simp add: nonzero_set)
  then show ?thesis by auto
qed

lemma nonzero_unique:
  assumes "sorted_wrt (<) ps" and "set ps = {i. i < length tokens \<and> tokens ! i = v}"
  shows "nonzero tokens v = map int ps"
proof -
  let ?f = "filter (\<lambda>i. tokens ! i = v) [0..<length tokens]"
  have "sorted ?f" "distinct ?f" by (simp_all add: sorted_wrt_filter)
  moreover have "sorted ps" "distinct ps" using assms(1) by (simp_all add: strict_sorted_iff)
  moreover have "set ?f = set ps" using assms(2) by auto
  ultimately have "?f = ps" by (rule sorted_distinct_set_unique)
  then show ?thesis by (simp add: nonzero_def)
qed

lemma merged_Cons:
  "xs \<noteq> [] \<Longrightarrow> merged (m # xs) =
     (if fst m = snd m - 1 then (fst m, snd (hd (merged xs))) else m) # merged xs"
  by (cases xs) (simp_all add: Let_def)

lemma raw_masks_Nil_iff: "raw_masks ps n = [] \<longleftrightarrow> ps = []"
  by (cases "(ps, n)" rule: raw_masks.cases) auto

lemma map_fst_merged: "map fst (merged xs) = map fst xs"
  by (induction xs rule: merged.induct) (auto simp: Let_def)

lemma map_fst_raw_masks: "map fst (raw_masks ps n) = ps"
  by (induction ps n rule: raw_masks.induct) auto

lemma masks_of_Nil: "masks_of [] n = []" by (simp add: masks_of_def)
lemma masks_of_single: "masks_of [p] n = [(p, n)]" by (simp add: masks_of_def)

lemma masks_of_Nil_iff: "masks_of ps n = [] \<longleftrightarrow> ps = []"
  by (simp add: masks_of_def merged_Nil_iff raw_masks_Nil_iff)

lemma map_fst_masks_of: "map fst (masks_of ps n) = ps"
  by (simp add: masks_of_def map_fst_merged map_fst_raw_masks)

lemma fst_hd_masks_of: "fst (hd (masks_of (q # ps) n)) = q"
proof -
  have "masks_of (q # ps) n \<noteq> []" by (simp add: masks_of_Nil_iff)
  then have "fst (hd (masks_of (q # ps) n)) = hd (map fst (masks_of (q # ps) n))" by (simp add: hd_map)
  then show ?thesis by (simp add: map_fst_masks_of)
qed

lemma masks_of_step:
  "masks_of (p # q # ps) n =
     (p, if q = p + 1 then snd (hd (masks_of (q # ps) n)) else q) # masks_of (q # ps) n"
proof -
  have "raw_masks (q # ps) n \<noteq> []" by (simp add: raw_masks_Nil_iff)
  then show ?thesis
    unfolding masks_of_def by (auto simp: merged_Cons simp del: merged.simps)
qed

lemma list2_induct [case_names Nil single step]:
  assumes "P []" and "\<And>p. P [p]" and "\<And>p q ps. P (q # ps) \<Longrightarrow> P (p # q # ps)"
  shows "P ps"
  using assms by (induction ps rule: induct_list012) auto

lemma masks_of_bounds:
  "sorted_wrt (<) ps \<Longrightarrow> \<forall>p \<in> set ps. p < n \<Longrightarrow> \<forall>r \<in> set (masks_of ps n). fst r < snd r \<and> snd r \<le> n"
proof (induction ps rule: list2_induct)
  case Nil
  then show ?case by (simp add: masks_of_Nil)
next
  case (single p)
  then show ?case by (simp add: masks_of_single)
next
  case (step p q ps)
  let ?r = "masks_of (q # ps) n"
  have ih: "\<forall>r \<in> set ?r. fst r < snd r \<and> snd r \<le> n" using step by simp
  have "?r \<noteq> []" by (simp add: masks_of_Nil_iff)
  then have "hd ?r \<in> set ?r" by simp
  then have h: "q < snd (hd ?r) \<and> snd (hd ?r) \<le> n" using ih fst_hd_masks_of [of q ps n] by force
  have pq: "p < q" "q < n" using step.prems by auto
  show ?case using ih h pq by (auto simp: masks_of_step)
qed

lemma masks_of_hd_bounds:
  "sorted_wrt (<) (q # ps) \<Longrightarrow> \<forall>p \<in> set (q # ps). p < n \<Longrightarrow> q < snd (hd (masks_of (q # ps) n)) \<and> snd (hd (masks_of (q # ps) n)) \<le> n"
proof -
  assume a: "sorted_wrt (<) (q # ps)" "\<forall>p \<in> set (q # ps). p < n"
  let ?r = "masks_of (q # ps) n"
  have "?r \<noteq> []" by (simp add: masks_of_Nil_iff)
  then have "hd ?r \<in> set ?r" by simp
  then show ?thesis using masks_of_bounds [OF a] fst_hd_masks_of [of q ps n] by force
qed

lemma masks_of_sorted_ends:
  "sorted_wrt (<) ps \<Longrightarrow> \<forall>p \<in> set ps. p < n \<Longrightarrow> sorted (map snd (masks_of ps n))"
proof (induction ps rule: list2_induct)
  case Nil
  then show ?case by (simp add: masks_of_Nil)
next
  case (single p)
  then show ?case by (simp add: masks_of_single)
next
  case (step p q ps)
  let ?r = "masks_of (q # ps) n"
  have ih: "sorted (map snd ?r)" using step by simp
  have a: "sorted_wrt (<) (q # ps)" "\<forall>p \<in> set (q # ps). p < n" using step.prems by auto
  have h: "q < snd (hd ?r)" using masks_of_hd_bounds [OF a] by simp
  have ne: "?r \<noteq> []" by (simp add: masks_of_Nil_iff)
  then obtain a' r' where r: "?r = a' # r'" by (cases ?r) auto
  show ?case using ih h r by (auto simp: masks_of_step)
qed

lemma masks_of_last_end: "ps \<noteq> [] \<Longrightarrow> snd (last (masks_of ps n)) = n"
  by (induction ps rule: list2_induct) (simp_all add: masks_of_single masks_of_step masks_of_Nil_iff)

lemma masks_of_covered:
  "sorted_wrt (<) ps \<Longrightarrow> \<forall>p \<in> set ps. p < n \<Longrightarrow> ps \<noteq> [] \<Longrightarrow> covered (masks_of ps n) = {hd ps..<n}"
proof (induction ps rule: list2_induct)
  case Nil
  then show ?case by simp
next
  case (single p)
  then show ?case by (simp add: masks_of_single covered_def)
next
  case (step p q ps)
  let ?r = "masks_of (q # ps) n"
  have ih: "covered ?r = {q..<n}" using step by simp
  have a: "sorted_wrt (<) (q # ps)" "\<forall>p \<in> set (q # ps). p < n" using step.prems by auto
  have h: "q < snd (hd ?r)" "snd (hd ?r) \<le> n" using masks_of_hd_bounds [OF a] by simp_all
  have pq: "p < q" "q < n" using step.prems by auto
  have "covered (masks_of (p # q # ps) n) = {p..<(if q = p + 1 then snd (hd ?r) else q)} \<union> covered ?r"
    by (simp add: masks_of_step covered_def)
  then show ?case using ih h pq by auto
qed

lemma masks_of_no_adjacent:
  "successively (\<lambda>a b. b \<noteq> a + 1) ps \<Longrightarrow> masks_of ps n = raw_masks ps n"
  by (induction ps rule: list2_induct) (simp_all add: masks_of_single masks_of_step masks_of_Nil)

lemma masks_of_widen:
  "Suc i < length (masks_of ps n) \<Longrightarrow>
   snd (masks_of ps n ! i) = fst (masks_of ps n ! Suc i) \<or> snd (masks_of ps n ! i) = snd (masks_of ps n ! Suc i)"
proof (induction ps arbitrary: i rule: list2_induct)
  case Nil
  then show ?case by (simp add: masks_of_Nil)
next
  case (single p)
  then show ?case by (simp add: masks_of_single)
next
  case (step p q ps)
  let ?r = "masks_of (q # ps) n"
  have ne: "?r \<noteq> []" by (simp add: masks_of_Nil_iff)
  show ?case
  proof (cases i)
    case 0
    then show ?thesis using ne fst_hd_masks_of [of q ps n] by (auto simp: masks_of_step hd_conv_nth)
  next
    case (Suc j)
    then show ?thesis using step by (simp add: masks_of_step)
  qed
qed

lemma masks_of_non_overlapping_iff:
  "sorted_wrt (<) ps \<Longrightarrow> \<forall>p \<in> set ps. p < n \<Longrightarrow>
   non_overlapping (masks_of ps n) \<longleftrightarrow> successively (\<lambda>a b. b \<noteq> a + 1) ps"
proof (induction ps rule: list2_induct)
  case Nil
  then show ?case by (simp add: masks_of_Nil)
next
  case (single p)
  then show ?case by (simp add: masks_of_single)
next
  case (step p q ps)
  let ?r = "masks_of (q # ps) n"
  have a: "sorted_wrt (<) (q # ps)" "\<forall>p \<in> set (q # ps). p < n" using step.prems by auto
  have ih: "non_overlapping ?r \<longleftrightarrow> successively (\<lambda>a b. b \<noteq> a + 1) (q # ps)"
    using step.IH [OF a] .
  have h: "q < snd (hd ?r)" "snd (hd ?r) \<le> n" using masks_of_hd_bounds [OF a] by simp_all
  have ne: "?r \<noteq> []" by (simp add: masks_of_Nil_iff)
  have hdr: "hd ?r \<in> set ?r" using ne by simp
  have fh: "fst (hd ?r) = q" by (rule fst_hd_masks_of)
  have pq: "p < q" using step.prems by auto
  show ?case
  proof (cases "q = p + 1")
    case True
    have "overlap (p, snd (hd ?r)) (hd ?r)" using h fh pq by (simp add: overlap_def)
    then have "\<not> list_all (\<lambda>r. \<not> overlap (p, snd (hd ?r)) r) ?r"
      using hdr by (auto simp: list_all_iff)
    then show ?thesis using True by (simp add: masks_of_step)
  next
    case False
    have "\<forall>r \<in> set ?r. q \<le> fst r"
    proof
      fix r assume "r \<in> set ?r"
      then have "fst r \<in> set (map fst ?r)" by simp
      then have "fst r \<in> set (q # ps)" by (simp only: map_fst_masks_of)
      then show "q \<le> fst r" using step.prems by auto
    qed
    then have "list_all (\<lambda>r. \<not> overlap (p, q) r) ?r"
      by (auto simp: list_all_iff overlap_def)
    then show ?thesis using False ih by (simp add: masks_of_step)
  qed
qed

lemma adjacent_sorted:
  "sorted_wrt (<) (ps :: int list) \<Longrightarrow>
   successively (\<lambda>a b. b \<noteq> a + 1) ps \<longleftrightarrow> \<not> (\<exists>a. a \<in> set ps \<and> a + 1 \<in> set ps)"
proof (induction ps rule: list2_induct)
  case Nil
  then show ?case by simp
next
  case (single p)
  then show ?case by simp
next
  case (step p q ps)
  have ih: "successively (\<lambda>a b. b \<noteq> a + 1) (q # ps) \<longleftrightarrow> \<not> (\<exists>a. a \<in> set (q # ps) \<and> a + 1 \<in> set (q # ps))"
    using step by simp
  have gt: "\<forall>x \<in> set (q # ps). p < x \<and> q \<le> x" using step.prems by auto
  show ?case
  proof (cases "q = p + 1")
    case True
    then show ?thesis by auto
  next
    case False
    have "(\<exists>a. a \<in> set (p # q # ps) \<and> a + 1 \<in> set (p # q # ps)) \<longleftrightarrow>
          (\<exists>a. a \<in> set (q # ps) \<and> a + 1 \<in> set (q # ps))"
      using gt False by (auto; force)
    then show ?thesis using False ih by simp
  qed
qed

lemma nonzero_adjacent:
  "successively (\<lambda>a b. b \<noteq> a + 1) (nonzero tokens v) \<longleftrightarrow>
   \<not> (\<exists>i. Suc i < length tokens \<and> tokens ! i = v \<and> tokens ! Suc i = v)"
proof -
  have "(\<exists>a. a \<in> set (nonzero tokens v) \<and> a + 1 \<in> set (nonzero tokens v)) \<longleftrightarrow>
        (\<exists>i. Suc i < length tokens \<and> tokens ! i = v \<and> tokens ! Suc i = v)"
  proof
    assume "\<exists>a. a \<in> set (nonzero tokens v) \<and> a + 1 \<in> set (nonzero tokens v)"
    then obtain a where a: "a \<in> set (nonzero tokens v)" "a + 1 \<in> set (nonzero tokens v)"
      by blast
    from a(1) obtain i where i: "a = int i" "i < length tokens" "tokens ! i = v"
      by (auto simp: nonzero_set)
    from a(2) obtain j where j: "a + 1 = int j" "j < length tokens" "tokens ! j = v"
      by (auto simp: nonzero_set)
    have js: "j = Suc i" using i(1) j(1) by linarith
    have ij: "Suc i < length tokens" "tokens ! i = v" "tokens ! Suc i = v"
      using i(3) j(2,3) unfolding js by blast+
    then show "\<exists>i. Suc i < length tokens \<and> tokens ! i = v \<and> tokens ! Suc i = v" using ij by auto
  next
    assume "\<exists>i. Suc i < length tokens \<and> tokens ! i = v \<and> tokens ! Suc i = v"
    then obtain i where i: "Suc i < length tokens" "tokens ! i = v" "tokens ! Suc i = v" by auto
    then have "int i \<in> set (nonzero tokens v)" "int i + 1 \<in> set (nonzero tokens v)"
      by (auto simp: nonzero_set image_iff intro: exI [of _ "Suc i"])
    then show "\<exists>a. a \<in> set (nonzero tokens v) \<and> a + 1 \<in> set (nonzero tokens v)" by blast
  qed
  then show ?thesis using adjacent_sorted [OF nonzero_sorted, of tokens v] by simp
qed

lemma create_vision_mask_tensor_masks_of:
  "create_vision_mask_tensor tokens v = Inr (masks_of (nonzero tokens v) (int (length tokens)))"
  by (simp add: create_vision_mask_tensor_eq masks_of_def)

lemma nonzero_lt: "\<forall>p \<in> set (nonzero tokens v). p < int (length tokens)"
  using nonzero_bounds by blast

lemma spec_fold_snd:
  "snd (foldr spec_step (m # xs) st) = snd (hd (fst (foldr spec_step (m # xs) st)))"
  by (simp add: spec_step_def Let_def)

lemma spec_fold_merged:
  "xs \<noteq> [] \<Longrightarrow> fst (foldr spec_step xs ([], snd (last xs))) = merged xs"
proof (induction xs rule: merged.induct)
  case 1
  then show ?case by simp
next
  case (2 m)
  then show ?case by (cases m) (simp add: spec_step_def)
next
  case (3 m m' ms)
  let ?st = "foldr spec_step (m' # ms) ([], snd (last (m' # ms)))"
  have ih: "fst ?st = merged (m' # ms)" using 3 by simp
  have sn: "snd ?st = snd (hd (fst ?st))" by (rule spec_fold_snd)
  have "foldr spec_step (m # m' # ms) ([], snd (last (m # m' # ms))) = spec_step m ?st"
    by simp
  then have "fst (foldr spec_step (m # m' # ms) ([], snd (last (m # m' # ms))))
      = (fst m, if snd m - fst m = 1 then snd (hd (merged (m' # ms))) else snd m) # merged (m' # ms)"
    using ih sn by (simp add: spec_step_def Let_def del: foldr.simps merged.simps)
  moreover have "(snd m - fst m = 1) = (fst m = snd m - 1)" by auto
  ultimately show ?case by (simp add: Let_def del: foldr.simps)
qed

lemma spec_merge_merged: "xs \<noteq> [] \<Longrightarrow> spec_merge xs = merged xs"
  by (simp add: spec_merge_def spec_fold_merged)

lemma hd_nonzero:
  assumes "p < length tokens" and "tokens ! p = v" and "\<forall>i < p. tokens ! i \<noteq> v"
  shows "nonzero tokens v \<noteq> []" and "hd (nonzero tokens v) = int p"
proof -
  let ?ps = "nonzero tokens v"
  have pin: "int p \<in> set ?ps" using assms by (simp add: nonzero_set)
  then show ne: "?ps \<noteq> []" by auto
  then obtain q qs where q: "?ps = q # qs" by (cases ?ps) auto
  have "sorted_wrt (<) (q # qs)" using nonzero_sorted [of tokens v] q by simp
  then have le: "q \<le> int p" using pin q by auto
  have "q \<in> set ?ps" using q by simp
  then obtain i where i: "q = int i" "tokens ! i = v" by (auto simp: nonzero_set)
  then have "\<not> i < p" using assms(3) by auto
  then have "q = int p" using le i by simp
  then show "hd ?ps = int p" using q by simp
qed

lemma merged_length: "length (merged xs) = length xs"
  using map_fst_merged [of xs] by (metis length_map)

lemma merged_last: "xs \<noteq> [] \<Longrightarrow> last (merged xs) = last xs"
  by (induction xs rule: merged.induct) (auto simp: Let_def merged_Nil_iff)

lemma merged_nth:
  "Suc i < length xs \<Longrightarrow>
   merged xs ! i = xs ! i \<or> merged xs ! i = (fst (xs ! i), snd (merged xs ! Suc i))"
proof (induction xs arbitrary: i rule: merged.induct)
  case 1
  then show ?case by simp
next
  case (2 m)
  then show ?case by simp
next
  case (3 m m' ms)
  have ne: "merged (m' # ms) \<noteq> []" by (simp add: merged_Nil_iff)
  show ?case
  proof (cases i)
    case 0
    have "merged (m # m' # ms) =
        (if fst m = snd m - 1 then (fst m, snd (hd (merged (m' # ms)))) else m) # merged (m' # ms)"
      by (rule merged_Cons) simp
    then show ?thesis using ne 0 by (auto simp: hd_conv_nth simp del: merged.simps)
  next
    case (Suc j)
    then have "Suc j < length (m' # ms)" using 3(2) by simp
    then show ?thesis using 3(1) [of j] Suc by (simp add: Let_def)
  qed
qed

lemma nonzero_absent: "v \<notin> set tokens \<Longrightarrow> nonzero tokens v = []"
  by (auto simp: nonzero_def filter_empty_conv)

lemma create_vision_mask_tensor_absent:
  "v \<notin> set tokens \<Longrightarrow> create_vision_mask_tensor tokens v = Inr []"
  by (simp add: create_vision_mask_tensor_eq nonzero_absent)

lemma create_vision_mask_tensor_returns:
  "\<exists>r. create_vision_mask_tensor tokens v = Inr r"
  by (simp add: create_vision_mask_tensor_eq)

subsection \<open>The conversion of the id\<close>

lemma int64_scalar_in_range:
  "- (2 ^ 63) \<le> v \<Longrightarrow> v < 2 ^ 64 \<Longrightarrow>
   int64_scalar v = Inr (if 2 ^ 63 \<le> v then v - 2 ^ 64 else v)"
  by (simp add: int64_scalar_def)

lemma int64_scalar_out_of_range:
  "v < - (2 ^ 63) \<or> 2 ^ 64 \<le> v \<Longrightarrow> int64_scalar v = Inl OverflowError"
  by (simp add: int64_scalar_def)

lemma call_in_range:
  "- (2 ^ 63) \<le> v \<Longrightarrow> v < 2 ^ 64 \<Longrightarrow>
   create_vision_mask_tensor_call tokens v =
     create_vision_mask_tensor tokens (if 2 ^ 63 \<le> v then v - 2 ^ 64 else v)"
  by (simp add: create_vision_mask_tensor_call_def int64_scalar_def bind_e_def)

text \<open>
  For an id in the 64-bit signed range, and so for every id that occurs in a tensor of
  64-bit tokens, the function on the Python integer is \<open>create_vision_mask_tensor\<close>.
\<close>

lemma call_int64:
  "- (2 ^ 63) \<le> v \<Longrightarrow> v < 2 ^ 63 \<Longrightarrow>
   create_vision_mask_tensor_call tokens v = create_vision_mask_tensor tokens v"
  by (simp add: create_vision_mask_tensor_call_def int64_scalar_def bind_e_def)

lemma call_result:
  "create_vision_mask_tensor_call tokens v = Inr r \<Longrightarrow>
   \<exists>s. int64_scalar v = Inr s \<and> create_vision_mask_tensor tokens s = Inr r"
  by (cases "int64_scalar v") (simp_all add: create_vision_mask_tensor_call_def bind_e_def)

lemma call_occurring:
  "\<forall>t \<in> set tokens. - (2 ^ 63) \<le> t \<and> t < 2 ^ 63 \<Longrightarrow> v \<in> set tokens \<Longrightarrow>
   create_vision_mask_tensor_call tokens v = create_vision_mask_tensor tokens v"
  by (rule call_int64) auto

section \<open>Properties\<close>

text \<open>
  C6. The specification says that a token sequence with no occurrence of the vision token
  id gives the empty mask, for every integer id. The id \<open>2\<^sup>6\<^sup>4 - 1\<close> does not occur in the
  tokens \<open>[-1, 3]\<close>, but the comparison wraps it to \<open>-1\<close> and the result is \<open>[(0,2)]\<close>.
\<close>

theorem absent_id_counterexample:
  "(2 ^ 64 - 1 :: int) \<notin> set [- 1, 3]
   \<and> create_vision_mask_tensor_call [- 1, 3] (2 ^ 64 - 1) = Inr [(0, 2)]"
  by (simp add: create_vision_mask_tensor_call_def int64_scalar_def bind_e_def
      create_vision_mask_tensor_eq nonzero_def)

text \<open>
  C6, as the function behaves: for an id that the comparison accepts
  (\<open>- 2\<^sup>6\<^sup>3 \<le> id < 2\<^sup>6\<^sup>4\<close>) and whose 64-bit value does not occur in the token sequence (the
  empty one included), the result is the empty mask. For an id in the 64-bit signed range
  the 64-bit value is the id itself.
\<close>

theorem no_vision_token_empty_mask:
  assumes "- (2 ^ 63) \<le> v" and "v < 2 ^ 64"
    and "(if 2 ^ 63 \<le> v then v - 2 ^ 64 else v) \<notin> set tokens"
  shows "create_vision_mask_tensor_call tokens v = Inr []"
  using call_in_range [OF assms(1,2), of tokens] create_vision_mask_tensor_absent [OF assms(3)]
  by simp

theorem no_vision_token_empty_mask_witness:
  "create_vision_mask_tensor_call [1, 2, 3] 9 = Inr []
   \<and> create_vision_mask_tensor_call [] 9 = Inr []
   \<and> create_vision_mask_tensor_call [- 1, 3] (2 ^ 64 - 3) = Inr []"
  using no_vision_token_empty_mask [of 9 "[1, 2, 3]"] no_vision_token_empty_mask [of 9 "[]"]
    no_vision_token_empty_mask [of "2 ^ 64 - 3" "[- 1, 3]"]
  by simp

text \<open>
  C8. The specification says that the function returns a result and raises no error for
  every token sequence and every integer id. For the empty sequence and the id \<open>2\<^sup>6\<^sup>4\<close> the
  comparison raises an OverflowError, and so it does for \<open>[1, 2, 3]\<close> and the id
  \<open>- 2\<^sup>6\<^sup>3 - 1\<close>.
\<close>

theorem total_counterexample:
  "create_vision_mask_tensor_call [] (2 ^ 64) = Inl OverflowError
   \<and> create_vision_mask_tensor_call [1, 2, 3] (- (2 ^ 63) - 1) = Inl OverflowError"
  by (simp add: create_vision_mask_tensor_call_def int64_scalar_def bind_e_def)

text \<open>
  C8, as the function behaves: for every token sequence and every id with
  \<open>- 2\<^sup>6\<^sup>3 \<le> id < 2\<^sup>6\<^sup>4\<close> the function returns a result and raises no error: neither the
  comparison nor any indexing, \<^verbatim>\<open>item\<close> or \<^verbatim>\<open>len\<close> raises. For the empty
  sequence, and when the 64-bit value of the id is absent, the result is the empty mask.
  For every other id the function raises an OverflowError.
\<close>

theorem create_vision_mask_tensor_total:
  "(- (2 ^ 63) \<le> v \<and> v < 2 ^ 64 \<longrightarrow>
      (\<exists>r. create_vision_mask_tensor_call tokens v = Inr r)
      \<and> (\<forall>e. create_vision_mask_tensor_call tokens v \<noteq> Inl e)
      \<and> create_vision_mask_tensor_call [] v = Inr []
      \<and> ((if 2 ^ 63 \<le> v then v - 2 ^ 64 else v) \<notin> set tokens \<longrightarrow>
             create_vision_mask_tensor_call tokens v = Inr []))
   \<and> (v < - (2 ^ 63) \<or> 2 ^ 64 \<le> v \<longrightarrow>
        create_vision_mask_tensor_call tokens v = Inl OverflowError)"
proof (intro conjI impI)
  assume r: "- (2 ^ 63) \<le> v \<and> v < 2 ^ 64"
  let ?s = "if 2 ^ 63 \<le> v then v - 2 ^ 64 else v"
  have c: "create_vision_mask_tensor_call tokens v = create_vision_mask_tensor tokens ?s"
    using r by (simp only: call_in_range)
  obtain r' where r': "create_vision_mask_tensor tokens ?s = Inr r'"
    using create_vision_mask_tensor_returns by blast
  show "\<exists>r. create_vision_mask_tensor_call tokens v = Inr r" using c r' by simp
  show "\<forall>e. create_vision_mask_tensor_call tokens v \<noteq> Inl e" using c r' by simp
  have "create_vision_mask_tensor_call [] v = create_vision_mask_tensor [] ?s"
    using r by (simp only: call_in_range)
  then show "create_vision_mask_tensor_call [] v = Inr []"
    by (simp add: create_vision_mask_tensor_absent)
  show "create_vision_mask_tensor_call tokens v = Inr []" if "?s \<notin> set tokens"
    using c create_vision_mask_tensor_absent [OF that] by simp
next
  assume "v < - (2 ^ 63) \<or> 2 ^ 64 \<le> v"
  then show "create_vision_mask_tensor_call tokens v = Inl OverflowError"
    by (simp add: create_vision_mask_tensor_call_def int64_scalar_out_of_range bind_e_def)
qed

theorem create_vision_mask_tensor_total_witness:
  "(\<exists>r. create_vision_mask_tensor_call [5, 5, 1, 2] 5 = Inr r)
   \<and> create_vision_mask_tensor_call [] 5 = Inr []
   \<and> create_vision_mask_tensor_call [1, 2, 3] 9 = Inr []
   \<and> create_vision_mask_tensor_call [1, 2, 3] (2 ^ 70) = Inl OverflowError"
  using create_vision_mask_tensor_total [of 5 "[5, 5, 1, 2]"]
    create_vision_mask_tensor_total [of 9 "[1, 2, 3]"]
    create_vision_mask_tensor_total [of "2 ^ 70" "[1, 2, 3]"]
  by simp

text \<open>
  C2. The loop over consecutive vision tokens is the merge step as the specification words
  it: on every non-empty list of ranges it returns what the reverse scan with
  \<open>last_mask_end\<close> returns. For the raw ranges \<open>[(0,1),(1,4)]\<close> of the tokens
  \<open>[5, 5, 1, 2]\<close> with vision token id \<open>5\<close> the result is \<open>[(0,4),(1,4)]\<close>: the second
  range stays in the output.
\<close>
theorem merge_step_as_specified:
  "handle_consecutive (r # rs) = Inr (spec_merge (r # rs))
   \<and> handle_consecutive [(0, 1), (1, 4)] = Inr [(0, 4), (1, 4)]
   \<and> create_vision_mask_tensor [5, 5, 1, 2] 5 = Inr [(0, 4), (1, 4)]"
proof -
  have "handle_consecutive (r # rs) = Inr (spec_merge (r # rs))"
    by (simp add: handle_consecutive_merged spec_merge_merged del: merged.simps)
  moreover have "handle_consecutive [(0, 1), (1, 4)] = Inr [(0, 4), (1, 4)]"
    by (simp add: handle_consecutive_def)
  moreover have "create_vision_mask_tensor [5, 5, 1, 2] 5 = Inr [(0, 4), (1, 4)]"
    by (simp add: create_vision_mask_tensor_eq nonzero_def upt_conv_Cons)
  ultimately show ?thesis by simp
qed

text \<open>
  C4. A token sequence of length \<open>N\<close> with exactly one occurrence of the vision token id,
  at position \<open>p\<close>, gives the single range \<open>(p, N)\<close>; \<open>p = N - 1\<close> is included.
\<close>
theorem single_vision_token:
  assumes "p < length tokens" and "\<forall>i < length tokens. tokens ! i = v \<longleftrightarrow> i = p"
  shows "create_vision_mask_tensor tokens v = Inr [(int p, int (length tokens))]"
proof -
  have "set [p] = {i. i < length tokens \<and> tokens ! i = v}" using assms by auto
  then have "nonzero tokens v = map int [p]" by (intro nonzero_unique) simp_all
  then show ?thesis by (simp add: create_vision_mask_tensor_eq)
qed

theorem single_vision_token_witness:
  "create_vision_mask_tensor [5] 5 = Inr [(0, 1)]
   \<and> create_vision_mask_tensor [1, 5, 2] 5 = Inr [(1, 3)]"
proof -
  have a: "\<forall>i < length [5::int]. [5::int] ! i = 5 \<longleftrightarrow> i = 0" by simp
  have b: "\<forall>i < length [1, 5, 2::int]. [1, 5, 2::int] ! i = 5 \<longleftrightarrow> i = 1"
    by (auto simp: nth_Cons')
  show ?thesis
    using single_vision_token [of 0 "[5]" 5, OF _ a] single_vision_token [of 1 "[1, 5, 2]" 5, OF _ b]
    by simp
qed

text \<open>
  C1. The specification says that two adjacent occurrences at \<open>p\<close> and \<open>p + 1\<close> give the
  single range \<open>(p, N)\<close>. The function returns two ranges: for the tokens \<open>[5, 5, 1, 2]\<close>
  the result is \<open>[(0,4),(1,4)]\<close>, not \<open>[(0,4)]\<close>.
\<close>
theorem two_adjacent_counterexample:
  "create_vision_mask_tensor [5, 5, 1, 2] 5 = Inr [(0, 4), (1, 4)]
   \<and> create_vision_mask_tensor [5, 5, 1, 2] 5 \<noteq> Inr [(0, 4)]"
  by (simp add: create_vision_mask_tensor_eq nonzero_def upt_conv_Cons)

text \<open>
  C1, as the function behaves: a token sequence of length \<open>N\<close> whose only occurrences of the
  vision token id are at \<open>p\<close> and \<open>p + 1\<close> gives the two ranges \<open>(p, N)\<close> and
  \<open>(p + 1, N)\<close>.
\<close>

theorem two_adjacent_vision_tokens:
  assumes "Suc p < length tokens"
    and "\<forall>i < length tokens. tokens ! i = v \<longleftrightarrow> i = p \<or> i = Suc p"
  shows "create_vision_mask_tensor tokens v =
           Inr [(int p, int (length tokens)), (int p + 1, int (length tokens))]"
proof -
  have "set [p, Suc p] = {i. i < length tokens \<and> tokens ! i = v}" using assms by auto
  then have "nonzero tokens v = map int [p, Suc p]" by (intro nonzero_unique) simp_all
  then show ?thesis by (simp add: create_vision_mask_tensor_eq)
qed

theorem two_adjacent_vision_tokens_witness:
  "create_vision_mask_tensor [5, 5, 1, 2] 5 = Inr [(0, 4), (1, 4)]
   \<and> create_vision_mask_tensor [1, 5, 5] 5 = Inr [(1, 3), (2, 3)]"
proof -
  have a: "\<forall>i < length [5, 5, 1, 2::int]. [5, 5, 1, 2::int] ! i = 5 \<longleftrightarrow> i = 0 \<or> i = Suc 0"
    by (auto simp: nth_Cons')
  have b: "\<forall>i < length [1, 5, 5::int]. [1, 5, 5::int] ! i = 5 \<longleftrightarrow> i = 1 \<or> i = Suc 1"
    by (auto simp: nth_Cons')
  show ?thesis
    using two_adjacent_vision_tokens [of 0 "[5, 5, 1, 2]" 5, OF _ a]
      two_adjacent_vision_tokens [of 1 "[1, 5, 5]" 5, OF _ b]
    by simp
qed

text \<open>
  C7. Every range \<open>(start, end)\<close> of the result satisfies \<open>0 \<le> start < end \<le> N\<close>, where
  \<open>N\<close> is the length of the token sequence.
\<close>
theorem ranges_within_bounds:
  "\<exists>r. create_vision_mask_tensor tokens v = Inr r
       \<and> (\<forall>(s, e) \<in> set r. 0 \<le> s \<and> s < e \<and> e \<le> int (length tokens))"
proof -
  let ?ps = "nonzero tokens v"
  let ?r = "masks_of ?ps (int (length tokens))"
  have b: "\<forall>r \<in> set ?r. fst r < snd r \<and> snd r \<le> int (length tokens)"
    by (rule masks_of_bounds [OF nonzero_sorted nonzero_lt])
  have "\<forall>r \<in> set ?r. 0 \<le> fst r"
  proof
    fix r assume "r \<in> set ?r"
    then have "fst r \<in> set (map fst ?r)" by simp
    then have "fst r \<in> set ?ps" by (simp only: map_fst_masks_of)
    then show "0 \<le> fst r" using nonzero_bounds by blast
  qed
  then have "\<forall>(s, e) \<in> set ?r. 0 \<le> s \<and> s < e \<and> e \<le> int (length tokens)"
    using b by auto
  then show ?thesis by (simp add: create_vision_mask_tensor_masks_of)
qed

theorem ranges_within_bounds_witness:
  "\<exists>r. create_vision_mask_tensor [5, 5, 1, 2] 5 = Inr r
       \<and> 0 \<le> fst (hd r) \<and> fst (hd r) < snd (hd r) \<and> snd (hd r) \<le> 4
       \<and> 0 \<le> fst (last r) \<and> fst (last r) < snd (last r) \<and> snd (last r) \<le> 4"
proof -
  have ev: "create_vision_mask_tensor [5, 5, 1, 2] 5 = Inr [(0, 4), (1, 4)]"
    by (simp add: create_vision_mask_tensor_eq nonzero_def upt_conv_Cons)
  obtain r where r: "create_vision_mask_tensor [5, 5, 1, 2] 5 = Inr r"
    and b: "\<forall>(s, e) \<in> set r. 0 \<le> s \<and> s < e \<and> e \<le> int (length [5, 5, 1, 2::int])"
    using ranges_within_bounds [of "[5, 5, 1, 2]" 5] by blast
  have "r = [(0, 4), (1, 4)]" using r ev by simp
  then show ?thesis using r b by simp
qed

text \<open>
  C3. The specification says that the returned ranges are pairwise non-overlapping and that
  their union is the interval from the first occurrence to \<open>N\<close>. For the tokens
  \<open>[5, 5, 1, 2]\<close> the result is \<open>[(0,4),(1,4)]\<close>, whose two ranges overlap.
\<close>
theorem coverage_counterexample:
  "create_vision_mask_tensor [5, 5, 1, 2] 5 = Inr [(0, 4), (1, 4)]
   \<and> \<not> non_overlapping [(0, 4), (1, 4)]"
  by (simp add: create_vision_mask_tensor_eq nonzero_def upt_conv_Cons overlap_def)

text \<open>
  C3, as the function behaves: if the first occurrence of the vision token id is at position
  \<open>p\<close>, the union of the returned ranges is the interval from \<open>p\<close> to \<open>N\<close>, and the ranges
  are pairwise non-overlapping exactly when no two occurrences are adjacent.
\<close>

theorem coverage_and_overlap:
  assumes "p < length tokens" and "tokens ! p = v" and "\<forall>i < p. tokens ! i \<noteq> v"
  shows "\<exists>r. create_vision_mask_tensor tokens v = Inr r
           \<and> covered r = {int p..<int (length tokens)}
           \<and> (non_overlapping r \<longleftrightarrow>
                \<not> (\<exists>i. Suc i < length tokens \<and> tokens ! i = v \<and> tokens ! Suc i = v))"
proof -
  let ?ps = "nonzero tokens v"
  let ?n = "int (length tokens)"
  have "covered (masks_of ?ps ?n) = {hd ?ps..<?n}"
    by (rule masks_of_covered [OF nonzero_sorted nonzero_lt hd_nonzero(1) [OF assms]])
  then have c: "covered (masks_of ?ps ?n) = {int p..<?n}"
    by (simp add: hd_nonzero(2) [OF assms])
  have "non_overlapping (masks_of ?ps ?n) \<longleftrightarrow> successively (\<lambda>a b. b \<noteq> a + 1) ?ps"
    by (rule masks_of_non_overlapping_iff [OF nonzero_sorted nonzero_lt])
  then have "non_overlapping (masks_of ?ps ?n) \<longleftrightarrow>
      \<not> (\<exists>i. Suc i < length tokens \<and> tokens ! i = v \<and> tokens ! Suc i = v)"
    by (simp only: nonzero_adjacent)
  then show ?thesis using c by (simp add: create_vision_mask_tensor_masks_of)
qed

theorem coverage_and_overlap_witness:
  "\<exists>r. create_vision_mask_tensor [1, 5, 2, 5, 3] 5 = Inr r
       \<and> r = [(1, 3), (3, 5)] \<and> covered r = {1..<5} \<and> non_overlapping r"
proof -
  have ev: "create_vision_mask_tensor [1, 5, 2, 5, 3] 5 = Inr [(1, 3), (3, 5)]"
    by (simp add: create_vision_mask_tensor_eq nonzero_def upt_conv_Cons)
  have p1: "(1::nat) < length [1, 5, 2, 5, 3::int]" by simp
  have p2: "[1, 5, 2, 5, 3::int] ! 1 = 5" by simp
  have h: "\<forall>i < 1. [1, 5, 2, 5, 3::int] ! i \<noteq> 5" by simp
  from coverage_and_overlap [OF p1 p2 h]
  obtain r where r: "create_vision_mask_tensor [1, 5, 2, 5, 3] 5 = Inr r"
    and c: "covered r = {int 1..<int (length [1, 5, 2, 5, 3::int])}"
    by blast
  have "r = [(1, 3), (3, 5)]" using r ev by simp
  then have "covered [(1, 3), (3, 5)] = {1..<5::int}" using c by simp
  moreover have "non_overlapping [(1, 3), (3, 5)]" by (simp add: overlap_def)
  ultimately show ?thesis using ev by simp
qed

text \<open>
  C5. Let the occurrences of the vision token id be at the positions \<open>ps\<close>, in increasing
  order, with at least two of them and no two adjacent. Then the result is the range from
  each position to the next one, followed by the range from the last position to \<open>N\<close>; for
  two positions \<open>p0\<close>, \<open>p1\<close> it is \<open>[(p0, p1), (p1, N)]\<close>.
\<close>
theorem non_adjacent_vision_tokens:
  assumes "sorted_wrt (<) ps"
    and "set ps = {i. i < length tokens \<and> tokens ! i = v}"
    and "2 \<le> length ps"
    and "\<forall>j. Suc j < length ps \<longrightarrow> ps ! Suc j \<noteq> Suc (ps ! j)"
  shows "create_vision_mask_tensor tokens v =
           Inr (map (\<lambda>j. (int (ps ! j), int (ps ! Suc j))) [0..<length ps - 1]
                @ [(int (last ps), int (length tokens))])
         \<and> (\<forall>p0 p1. ps = [p0, p1] \<longrightarrow>
              create_vision_mask_tensor tokens v =
                Inr [(int p0, int p1), (int p1, int (length tokens))])"
proof -
  let ?n = "int (length tokens)"
  let ?qs = "map int ps"
  have nz: "nonzero tokens v = ?qs" by (rule nonzero_unique [OF assms(1,2)])
  have ne: "?qs \<noteq> []" using assms(3) by auto
  have "successively (\<lambda>a b. b \<noteq> a + 1) ?qs"
    unfolding successively_conv_nth using assms(4) by auto
  then have "masks_of ?qs ?n = raw_masks ?qs ?n" by (rule masks_of_no_adjacent)
  then have r: "create_vision_mask_tensor tokens v = Inr (raw_masks ?qs ?n)"
    by (simp add: create_vision_mask_tensor_masks_of nz)
  have "raw_masks ?qs ?n = map (\<lambda>i. (?qs ! i, ?qs ! Suc i)) [0..<length ?qs - 1] @ [(last ?qs, ?n)]"
    using raw_masks_index [OF ne, of ?n] by simp
  also have "\<dots> = map (\<lambda>j. (int (ps ! j), int (ps ! Suc j))) [0..<length ps - 1]
                @ [(int (last ps), ?n)]"
    using ne by (auto simp: last_map)
  finally have g: "create_vision_mask_tensor tokens v =
           Inr (map (\<lambda>j. (int (ps ! j), int (ps ! Suc j))) [0..<length ps - 1]
                @ [(int (last ps), ?n)])"
    using r by simp
  have "\<forall>p0 p1. ps = [p0, p1] \<longrightarrow>
      create_vision_mask_tensor tokens v = Inr [(int p0, int p1), (int p1, ?n)]"
    using r by auto
  then show ?thesis using g by blast
qed

theorem non_adjacent_vision_tokens_witness:
  "create_vision_mask_tensor [5, 1, 2, 5, 3] 5 = Inr [(0, 3), (3, 5)]
   \<and> create_vision_mask_tensor [5, 1, 5, 2, 2, 5] 5 = Inr [(0, 2), (2, 5), (5, 6)]"
proof -
  have a: "set [0, 3] = {i. i < length [5, 1, 2, 5, 3::int] \<and> [5, 1, 2, 5, 3::int] ! i = 5}"
    by (auto simp: nth_Cons' split: if_splits)
  have a': "\<forall>j. Suc j < length [0, 3::nat] \<longrightarrow> [0, 3::nat] ! Suc j \<noteq> Suc ([0, 3] ! j)"
    by (auto simp: nth_Cons')
  have b: "set [0, 2, 5] = {i. i < length [5, 1, 5, 2, 2, 5::int] \<and> [5, 1, 5, 2, 2, 5::int] ! i = 5}"
    by (auto simp: nth_Cons' split: if_splits)
  have b': "\<forall>j. Suc j < length [0, 2, 5::nat] \<longrightarrow> [0, 2, 5::nat] ! Suc j \<noteq> Suc ([0, 2, 5] ! j)"
    by (auto simp: nth_Cons' less_Suc_eq)
  show ?thesis
    using non_adjacent_vision_tokens [of "[0, 3]" "[5, 1, 2, 5, 3]" 5, OF _ a _ a']
      non_adjacent_vision_tokens [of "[0, 2, 5]" "[5, 1, 5, 2, 2, 5]" 5, OF _ b _ b']
    by (simp add: upt_conv_Cons)
qed

text \<open>
  C9. The result has one range per occurrence of the vision token id, and the starts of the
  ranges are the positions of the occurrences in increasing order. The loop over consecutive
  vision tokens keeps the number of ranges, their order and every start.
\<close>
theorem one_range_per_vision_token:
  "\<exists>r. create_vision_mask_tensor tokens v = Inr r
       \<and> length r = card {i. i < length tokens \<and> tokens ! i = v}
       \<and> map fst r = nonzero tokens v
       \<and> sorted_wrt (<) (map fst r)
       \<and> set (map fst r) = int ` {i. i < length tokens \<and> tokens ! i = v}
       \<and> (\<exists>ys. handle_consecutive (m # ms) = Inr ys
                \<and> length ys = length (m # ms) \<and> map fst ys = map fst (m # ms))"
proof -
  let ?r = "masks_of (nonzero tokens v) (int (length tokens))"
  have f: "map fst ?r = nonzero tokens v" by (rule map_fst_masks_of)
  have "length ?r = length (map fst ?r)" by simp
  also have "\<dots> = length (nonzero tokens v)" by (simp only: f)
  also have "\<dots> = card {i. i < length tokens \<and> tokens ! i = v}"
  proof -
    have "{i. i < length [0..<length tokens] \<and> tokens ! ([0..<length tokens] ! i) = v}
        = {i. i < length tokens \<and> tokens ! i = v}"
      by auto
    then show ?thesis by (simp add: nonzero_def length_filter_conv_card)
  qed
  finally have l: "length ?r = card {i. i < length tokens \<and> tokens ! i = v}" .
  have h: "handle_consecutive (m # ms) = Inr (merged (m # ms))"
    by (rule handle_consecutive_merged) simp
  have "length (merged (m # ms)) = length (m # ms)" by (rule merged_length)
  moreover have "map fst (merged (m # ms)) = map fst (m # ms)" by (rule map_fst_merged)
  ultimately have "\<exists>ys. handle_consecutive (m # ms) = Inr ys
                \<and> length ys = length (m # ms) \<and> map fst ys = map fst (m # ms)"
    using h by blast
  then have hc: "\<exists>ys. handle_consecutive (m # ms) = Inr ys
                \<and> length ys = length (m # ms) \<and> map fst ys = map fst (m # ms)" .
  have s1: "sorted_wrt (<) (map fst ?r)" by (simp only: f nonzero_sorted)
  have s2: "set (map fst ?r) = int ` {i. i < length tokens \<and> tokens ! i = v}"
    by (simp only: f nonzero_set)
  have "create_vision_mask_tensor tokens v = Inr ?r"
    by (rule create_vision_mask_tensor_masks_of)
  then show ?thesis using l f s1 s2 hc by blast
qed

text \<open>
  C10. When the vision token id occurs, the ends of the returned ranges are non-decreasing
  in output order, the last end is \<open>N\<close> and no end exceeds \<open>N\<close>. Every end but the last is
  either the start of the following range (the end before the loop) or the end of the
  following range. The loop itself leaves the last range as it is and changes any other
  range at most by giving it the end of the range after it.
\<close>
theorem ends_non_decreasing:
  assumes "v \<in> set tokens"
  shows "\<exists>r. create_vision_mask_tensor tokens v = Inr r \<and> r \<noteq> []
           \<and> sorted (map snd r)
           \<and> snd (last r) = int (length tokens)
           \<and> (\<forall>i. Suc i < length r \<longrightarrow>
                 snd (r ! i) = fst (r ! Suc i) \<or> snd (r ! i) = snd (r ! Suc i))
           \<and> (\<forall>m \<in> set r. snd m \<le> int (length tokens))
           \<and> (\<exists>ys. handle_consecutive (x # xs) = Inr ys \<and> last ys = last (x # xs)
                 \<and> (\<forall>i. Suc i < length (x # xs) \<longrightarrow>
                       ys ! i = (x # xs) ! i
                       \<or> ys ! i = (fst ((x # xs) ! i), snd (ys ! Suc i))))"
proof -
  let ?ps = "nonzero tokens v"
  let ?n = "int (length tokens)"
  let ?r = "masks_of ?ps ?n"
  have ne: "?ps \<noteq> []" using assms by (rule nonzero_present)
  have 1: "?r \<noteq> []" using ne by (simp add: masks_of_Nil_iff)
  have 2: "sorted (map snd ?r)" by (rule masks_of_sorted_ends [OF nonzero_sorted nonzero_lt])
  have 3: "snd (last ?r) = ?n" using ne by (rule masks_of_last_end)
  have 4: "\<forall>i. Suc i < length ?r \<longrightarrow>
                 snd (?r ! i) = fst (?r ! Suc i) \<or> snd (?r ! i) = snd (?r ! Suc i)"
    using masks_of_widen by blast
  have 5: "\<forall>m \<in> set ?r. snd m \<le> ?n"
    using masks_of_bounds [OF nonzero_sorted nonzero_lt, of tokens v] by blast
  have h: "handle_consecutive (x # xs) = Inr (merged (x # xs))"
    by (rule handle_consecutive_merged) simp
  have "last (merged (x # xs)) = last (x # xs)" by (rule merged_last) simp
  moreover have "\<forall>i. Suc i < length (x # xs) \<longrightarrow>
                       merged (x # xs) ! i = (x # xs) ! i
                       \<or> merged (x # xs) ! i = (fst ((x # xs) ! i), snd (merged (x # xs) ! Suc i))"
    using merged_nth by blast
  ultimately have 6: "\<exists>ys. handle_consecutive (x # xs) = Inr ys \<and> last ys = last (x # xs)
                 \<and> (\<forall>i. Suc i < length (x # xs) \<longrightarrow>
                       ys ! i = (x # xs) ! i
                       \<or> ys ! i = (fst ((x # xs) ! i), snd (ys ! Suc i)))"
    using h by blast
  have "create_vision_mask_tensor tokens v = Inr ?r"
    by (rule create_vision_mask_tensor_masks_of)
  then show ?thesis using 1 2 3 4 5 6 by blast
qed

theorem ends_non_decreasing_witness:
  "\<exists>r. create_vision_mask_tensor [5, 5, 5, 1, 5, 5] 5 = Inr r
       \<and> r = [(0, 4), (1, 4), (2, 4), (4, 6), (5, 6)]
       \<and> sorted (map snd r) \<and> snd (last r) = 6"
proof -
  have ev: "create_vision_mask_tensor [5, 5, 5, 1, 5, 5] 5
      = Inr [(0, 4), (1, 4), (2, 4), (4, 6), (5, 6)]"
    by (simp add: create_vision_mask_tensor_eq nonzero_def upt_conv_Cons)
  have "(5::int) \<in> set [5, 5, 5, 1, 5, 5]" by simp
  from ends_non_decreasing [OF this, where x = "(0, 1)" and xs = "[]"]
  obtain r where "create_vision_mask_tensor [5, 5, 5, 1, 5, 5] 5 = Inr r"
    "sorted (map snd r)" "snd (last r) = int (length [5, 5, 5, 1, 5, 5::int])"
    by blast
  then show ?thesis using ev by simp
qed

end
